theory Spec2Isabelle
  imports Main "HOL-Library.Word" "HOL-Library.Multiset"
begin

section \<open>The directed graph generator (src/main.cpp)\<close>

text \<open>
  The program is one C++ file: a class \<open>Graph\<close> (a dense adjacency matrix with an edge
  counter) and \<open>main\<close>, which validates its parameters, seeds a chain of edges, samples
  further edges at random and prints the graph.

  \<^item> \<open>uint32_t\<close> is \<open>32 word\<close>, \<open>uint8_t\<close> is \<open>8 word\<close>; \<open>+\<close> and \<open>*\<close> wrap.
  \<^item> The buffer behind \<open>bool *matrix\<close> is a \<open>bool list\<close> of the allocated length.
    What C++ leaves undefined is an error value: an access outside the buffer is
    \<open>OutOfBounds\<close>, \<open>%\<close> by zero is \<open>DivByZero\<close>, \<open>i++\<close> on an \<open>int\<close> at \<open>INT_MAX\<close> is
    \<open>SignedOverflow\<close>.
  \<^item> \<open>new bool[k]\<close> is taken to succeed and does not initialise its cells. Their
    content is a parameter \<open>heap :: nat \<Rightarrow> bool\<close>: cell \<open>i\<close> of the fresh buffer holds
    \<open>heap i\<close>.
  \<^item> The random engine is a parameter \<open>rng :: nat \<Rightarrow> nat\<close>: the \<open>k\<close>-th call of \<open>rng()\<close>
    (counted from 0) returns \<open>rng k\<close>.
\<close>

datatype error = DivByZero | OutOfBounds | SignedOverflow

subsection \<open>Memory cells of the matrix\<close>

definition load :: "bool list \<Rightarrow> nat \<Rightarrow> error + bool" where
  "load m i = (if i < length m then Inr (m ! i) else Inl OutOfBounds)"

definition store :: "bool list \<Rightarrow> nat \<Rightarrow> bool \<Rightarrow> error + bool list" where
  "store m i v = (if i < length m then Inr (m[i := v]) else Inl OutOfBounds)"

subsection \<open>class Graph\<close>

record Graph =
  num_vertices :: "32 word"
  num_edges :: "32 word"
  matrix :: "bool list"

text \<open>
  The constructor's loop \<open>for (i = 0; i < num_vertices; i++) matrix[i] = false\<close>:
  \<open>init_loop k m\<close> is the buffer after the iterations \<open>i = 0, ..., k - 1\<close>.
\<close>

primrec init_loop :: "nat \<Rightarrow> bool list \<Rightarrow> error + bool list" where
  "init_loop 0 m = Inr m"
| "init_loop (Suc i) m =
     (case init_loop i m of Inl e \<Rightarrow> Inl e | Inr m' \<Rightarrow> store m' i False)"

text \<open>
  \<open>Graph::Graph(num_vertices)\<close>. The buffer has \<open>num_vertices * num_vertices\<close> cells, the
  product taken in \<open>uint32_t\<close>; the loop clears the first \<open>num_vertices\<close> of them.
\<close>

definition new_Graph :: "(nat \<Rightarrow> bool) \<Rightarrow> 32 word \<Rightarrow> error + Graph" where
  "new_Graph heap n =
     (case init_loop (unat n) (map heap [0..<unat (n * n)]) of
        Inl e \<Rightarrow> Inl e
      | Inr m \<Rightarrow> Inr \<lparr>num_vertices = n, num_edges = 0, matrix = m\<rparr>)"

text \<open>\<open>Graph::add_edge(from, to)\<close> and \<open>Graph::has_edge(from, to)\<close>.\<close>

definition add_edge :: "Graph \<Rightarrow> 32 word \<Rightarrow> 32 word \<Rightarrow> error + Graph" where
  "add_edge g from to =
     (case store (matrix g) (unat (from + to * num_vertices g)) True of
        Inl e \<Rightarrow> Inl e
      | Inr m \<Rightarrow> Inr (g\<lparr>matrix := m, num_edges := num_edges g + 1\<rparr>))"

definition has_edge :: "Graph \<Rightarrow> 32 word \<Rightarrow> 32 word \<Rightarrow> error + bool" where
  "has_edge g from to = load (matrix g) (unat (from + to * num_vertices g))"

subsection \<open>Generation: the chain and the sampled edges\<close>

definition MAX_ITERATIONS :: int where
  "MAX_ITERATIONS = 256"

definition INT_MAX :: int where
  "INT_MAX = 2147483647"

text \<open>
  \<open>for (int i = 1; i < min_graph_depth; i++) graph.add_edge(i - 1, i)\<close>. The counter is
  an \<open>int\<close>; the comparison and the two arguments convert it to \<open>uint32_t\<close>.
\<close>

function chain_loop :: "Graph \<Rightarrow> int \<Rightarrow> 32 word \<Rightarrow> error + Graph" where
  "chain_loop g i min_graph_depth =
     (if word_of_int i < min_graph_depth then
        (case add_edge g (word_of_int (i - 1)) (word_of_int i) of
           Inl e \<Rightarrow> Inl e
         | Inr g' \<Rightarrow>
             if INT_MAX \<le> i then Inl SignedOverflow
             else chain_loop g' (i + 1) min_graph_depth)
      else Inr g)"
  by pat_completeness auto
termination
  by (relation "measure (\<lambda>(g, i, d). nat (INT_MAX - i))") auto

declare chain_loop.simps [simp del]

text \<open>
  The state of the sampling loop: the graph, the two counters of the source, and the
  number of calls of \<open>rng()\<close> made so far.
\<close>

record loop_state =
  graph :: Graph
  current_additional_edges :: "32 word"
  current_iterations :: "8 word"
  draws :: nat

datatype step_result = Continue loop_state | Abort | Undefined error

text \<open>
  The block \<open>graph.add_edge(rand_from, rand_to); current_additional_edges++;
  current_iterations = 0; continue;\<close> that the three branches share.
\<close>

definition accept :: "loop_state \<Rightarrow> nat \<Rightarrow> 32 word \<Rightarrow> 32 word \<Rightarrow> step_result" where
  "accept s k rand_from rand_to =
     (case add_edge (graph s) rand_from rand_to of
        Inl e \<Rightarrow> Undefined e
      | Inr g \<Rightarrow>
          Continue (s\<lparr>graph := g,
                      current_additional_edges := current_additional_edges s + 1,
                      current_iterations := 0,
                      draws := k\<rparr>))"

text \<open>
  The end of the loop body, reached when no edge was added:
  \<open>if (current_iterations > MAX_ITERATIONS) { ...; return 1; } current_iterations++;\<close>.
  The \<open>uint8_t\<close> counter is promoted to \<open>int\<close> for the comparison.
\<close>

definition reject :: "loop_state \<Rightarrow> nat \<Rightarrow> step_result" where
  "reject s k =
     (if uint (current_iterations s) > MAX_ITERATIONS then Abort
      else Continue (s\<lparr>current_iterations := current_iterations s + 1, draws := k\<rparr>))"

text \<open>\<open>if (!graph.has_edge(rand_from, rand_to)) { accept }\<close>, else fall through.\<close>

definition try_edge :: "loop_state \<Rightarrow> nat \<Rightarrow> 32 word \<Rightarrow> 32 word \<Rightarrow> step_result" where
  "try_edge s k rand_from rand_to =
     (case has_edge (graph s) rand_from rand_to of
        Inl e \<Rightarrow> Undefined e
      | Inr b \<Rightarrow> if \<not> b then accept s k rand_from rand_to else reject s k)"

text \<open>One run of the body of \<open>while (current_additional_edges < additional_edges)\<close>.\<close>

definition sample_step :: "(nat \<Rightarrow> nat) \<Rightarrow> 32 word \<Rightarrow> bool \<Rightarrow> loop_state \<Rightarrow> step_result" where
  "sample_step rng min_graph_depth has_cicles s =
     (let n = num_vertices (graph s); k = draws s in
      if n = 0 then Undefined DivByZero
      else
        let rand_to = (word_of_nat (rng k mod unat n) :: 32 word) in
        if has_cicles then
          if current_additional_edges s = 0 then
            if min_graph_depth = 0 then Undefined DivByZero
            else
              let rand_to = rand_to mod min_graph_depth;
                  rand_from = (word_of_nat (rng (k + 1) mod unat min_graph_depth) :: 32 word)
              in if rand_from \<noteq> rand_to then try_edge s (k + 2) rand_from rand_to
                 else reject s (k + 2)
          else
            let rand_from = (word_of_nat (rng (k + 1) mod unat n) :: 32 word)
            in if rand_from \<noteq> rand_to then try_edge s (k + 2) rand_from rand_to
               else reject s (k + 2)
        else
          if rand_to > 0 then
            let rand_from = (word_of_nat (rng (k + 1) mod unat rand_to) :: 32 word)
            in try_edge s (k + 2) rand_from rand_to
          else reject s (k + 1))"

datatype loop_exit = Finished loop_state | Exhausted

text \<open>
  The sampling loop. Nothing in the source bounds the number of its iterations from
  outside, so it is a partial function: \<open>None\<close> is a run that never leaves the loop.
\<close>

partial_function (option) sample_loop ::
  "(nat \<Rightarrow> nat) \<Rightarrow> 32 word \<Rightarrow> 32 word \<Rightarrow> bool \<Rightarrow> loop_state \<Rightarrow> (error + loop_exit) option"
where
  "sample_loop rng min_graph_depth additional_edges has_cicles s =
     (if current_additional_edges s < additional_edges then
        (case sample_step rng min_graph_depth has_cicles s of
           Continue s' \<Rightarrow> sample_loop rng min_graph_depth additional_edges has_cicles s'
         | Abort \<Rightarrow> Some (Inr Exhausted)
         | Undefined e \<Rightarrow> Some (Inl e))
      else Some (Inr (Finished s)))"

declare sample_loop.simps [code]

text \<open>Lines 99 to 176 of \<open>main\<close>: construction, the chain, the sampling loop.\<close>

definition generate ::
  "(nat \<Rightarrow> bool) \<Rightarrow> (nat \<Rightarrow> nat) \<Rightarrow> 32 word \<Rightarrow> 32 word \<Rightarrow> 32 word \<Rightarrow> bool
     \<Rightarrow> (error + loop_exit) option" where
  "generate heap rng n min_graph_depth additional_edges has_cicles =
     (case new_Graph heap n of
        Inl e \<Rightarrow> Some (Inl e)
      | Inr g \<Rightarrow>
          (case chain_loop g 1 min_graph_depth of
             Inl e \<Rightarrow> Some (Inl e)
           | Inr g' \<Rightarrow>
               sample_loop rng min_graph_depth additional_edges has_cicles
                 \<lparr>graph = g', current_additional_edges = 0, current_iterations = 0,
                  draws = 0\<rparr>))"

subsection \<open>Output\<close>

text \<open>Decimal digits of an unsigned number, as \<open>operator<<\<close> and \<open>std::to_string\<close> print it.\<close>

fun to_string :: "nat \<Rightarrow> string" where
  "to_string n =
     (if n < 10 then [char_of (48 + n)]
      else to_string (n div 10) @ [char_of (48 + n mod 10)])"

declare to_string.simps [simp del]

text \<open>\<open>for (int i = 0; i < graph.get_num_vertices(); i++) vertex_numbers.push_back(i)\<close>.\<close>

function number_loop :: "32 word \<Rightarrow> int \<Rightarrow> 32 word list \<Rightarrow> error + 32 word list" where
  "number_loop n i vertex_numbers =
     (if word_of_int i < n then
        (if INT_MAX \<le> i then Inl SignedOverflow
         else number_loop n (i + 1) (vertex_numbers @ [word_of_int i]))
      else Inr vertex_numbers)"
  by pat_completeness auto
termination
  by (relation "measure (\<lambda>(n, i, v). nat (INT_MAX - i))") auto

declare number_loop.simps [simp del]

text \<open>
  Modelled from the spec: \<open>std::random_shuffle\<close> is the C++ standard library's, not this
  repository's. The spec (4.2, item 3) says it produces a random permutation, "Fisher-Yates
  or equivalent": for \<open>i = 1, ..., length - 1\<close> the element at \<open>i\<close> is swapped with the one
  at a random position in \<open>[0, i]\<close>. The random source \<open>rnd\<close> is a parameter; \<open>rnd i\<close> is
  the number drawn at position \<open>i\<close>.
\<close>

definition swap :: "'a list \<Rightarrow> nat \<Rightarrow> nat \<Rightarrow> 'a list" where
  "swap xs i j = xs[i := xs ! j, j := xs ! i]"

primrec shuffle_loop :: "(nat \<Rightarrow> nat) \<Rightarrow> nat \<Rightarrow> 'a list \<Rightarrow> 'a list" where
  "shuffle_loop rnd 0 xs = xs"
| "shuffle_loop rnd (Suc k) xs =
     swap (shuffle_loop rnd k xs) (Suc k) (rnd (Suc k) mod (Suc k + 1))"

definition random_shuffle :: "(nat \<Rightarrow> nat) \<Rightarrow> 'a list \<Rightarrow> 'a list" where
  "random_shuffle rnd xs = shuffle_loop rnd (length xs - 1) xs"

text \<open>
  The two nested printing loops, \<open>i\<close> outside and \<open>j\<close> inside, both over
  \<open>0, ..., num_vertices - 1\<close>; a line is printed where \<open>has_edge(i, j)\<close> holds. Their
  \<open>int\<close> counters cannot overflow: the loops run only after \<open>number_loop\<close> has counted
  to \<open>num_vertices\<close> without overflow.
\<close>

definition edge_line :: "32 word list \<Rightarrow> nat \<Rightarrow> nat \<Rightarrow> string" where
  "edge_line vertex_numbers i j =
     to_string (unat (vertex_numbers ! i)) @ '' '' @ to_string (unat (vertex_numbers ! j))
       @ [CHR 0x0A]"

fun print_row :: "Graph \<Rightarrow> 32 word list \<Rightarrow> nat \<Rightarrow> nat list \<Rightarrow> error + string" where
  "print_row g vertex_numbers i [] = Inr []"
| "print_row g vertex_numbers i (j # js) =
     (case has_edge g (word_of_nat i) (word_of_nat j) of
        Inl e \<Rightarrow> Inl e
      | Inr b \<Rightarrow>
          (case print_row g vertex_numbers i js of
             Inl e \<Rightarrow> Inl e
           | Inr rest \<Rightarrow> Inr ((if b then edge_line vertex_numbers i j else []) @ rest)))"

fun print_rows :: "Graph \<Rightarrow> 32 word list \<Rightarrow> nat list \<Rightarrow> error + string" where
  "print_rows g vertex_numbers [] = Inr []"
| "print_rows g vertex_numbers (i # is) =
     (case print_row g vertex_numbers i [0..<unat (num_vertices g)] of
        Inl e \<Rightarrow> Inl e
      | Inr row \<Rightarrow>
          (case print_rows g vertex_numbers is of
             Inl e \<Rightarrow> Inl e
           | Inr rest \<Rightarrow> Inr (row @ rest)))"

text \<open>Lines 180 to 205: the text written to the output file.\<close>

definition vertex_labels :: "(nat \<Rightarrow> nat) \<Rightarrow> bool \<Rightarrow> Graph \<Rightarrow> error + 32 word list" where
  "vertex_labels rnd shuffle g =
     (case number_loop (num_vertices g) 0 [] of
        Inl e \<Rightarrow> Inl e
      | Inr vertex_numbers \<Rightarrow>
          Inr (if shuffle then random_shuffle rnd vertex_numbers else vertex_numbers))"

definition write_graph :: "(nat \<Rightarrow> nat) \<Rightarrow> bool \<Rightarrow> Graph \<Rightarrow> error + string" where
  "write_graph rnd shuffle g =
     (case vertex_labels rnd shuffle g of
        Inl e \<Rightarrow> Inl e
      | Inr vertex_numbers \<Rightarrow>
          (case print_rows g vertex_numbers [0..<unat (num_vertices g)] of
             Inl e \<Rightarrow> Inl e
           | Inr edge_lines \<Rightarrow>
               Inr (to_string (unat (num_vertices g)) @ [CHR 0x0A]
                    @ to_string (unat (num_edges g)) @ [CHR 0x0A] @ edge_lines)))"

subsection \<open>main\<close>

text \<open>
  What a run that returns leaves behind: the exit code, the text on the console, and
  the content of the output file, \<open>None\<close> when the file was never opened.
\<close>

record result =
  exit_code :: int
  console :: string
  out_file :: "string option"

definition usage_text :: string where
  "usage_text = ''Usage: ./$(name) $(num_vertices) $(min_graph_depth) $(additional_edges) $(has_cicles) $(shuffle) $(output_name)'' @ [CHR 0x0A]"

definition depth_text :: string where
  "depth_text = ''$(min_graph_depth) must be lower than $(num_vertices)!'' @ [CHR 0x0A]"

definition cicles_text :: string where
  "cicles_text = ''$(has_cicles) must be false if $(additional_edges) is less than 1!'' @ [CHR 0x0A]"

definition iterations_text :: string where
  "iterations_text = ''ERROR: too many iterations trying to generate an edge! Are you sure a graph with your parameters is possible?'' @ [CHR 0x0A]"

text \<open>
  \<open>main\<close>. \<open>argc\<close> is the argument count; \<open>n\<close>, \<open>min_graph_depth\<close> and \<open>additional_edges\<close>
  are the values \<open>atoi\<close> gave for \<open>argv[1]\<close>, \<open>argv[2]\<close> and \<open>argv[3]\<close>, converted to
  \<open>uint32_t\<close>; \<open>argv4\<close> and \<open>argv5\<close> are the two flag strings, compared with \<open>"true"\<close>.
  The result is \<open>None\<close> when the run never returns.
\<close>

definition main_prog ::
  "(nat \<Rightarrow> bool) \<Rightarrow> (nat \<Rightarrow> nat) \<Rightarrow> (nat \<Rightarrow> nat) \<Rightarrow> int \<Rightarrow> 32 word \<Rightarrow> 32 word \<Rightarrow> 32 word
     \<Rightarrow> string \<Rightarrow> string \<Rightarrow> (error + result) option" where
  "main_prog heap rng rnd argc n min_graph_depth additional_edges argv4 argv5 =
     (if argc \<noteq> 7 then
        Some (Inr \<lparr>exit_code = 0, console = usage_text, out_file = None\<rparr>)
      else if min_graph_depth > n then
        Some (Inr \<lparr>exit_code = 1, console = depth_text, out_file = None\<rparr>)
      else
        let has_cicles = (argv4 = ''true'') in
        if has_cicles \<and> additional_edges < 1 then
          Some (Inr \<lparr>exit_code = 1, console = cicles_text, out_file = None\<rparr>)
        else
          let shuffle = (argv5 = ''true'') in
          (case generate heap rng n min_graph_depth additional_edges has_cicles of
             None \<Rightarrow> None
           | Some (Inl e) \<Rightarrow> Some (Inl e)
           | Some (Inr Exhausted) \<Rightarrow>
               Some (Inr \<lparr>exit_code = 1, console = iterations_text, out_file = None\<rparr>)
           | Some (Inr (Finished s)) \<Rightarrow>
               (case write_graph rnd shuffle (graph s) of
                  Inl e \<Rightarrow> Some (Inl e)
                | Inr text \<Rightarrow>
                    Some (Inr \<lparr>exit_code = 0, console = [], out_file = Some text\<rparr>))))"

subsection \<open>Concrete inputs\<close>

text \<open>
  A heap or a stream of random numbers given by a finite prefix: cells beyond the prefix
  are clear, draws beyond the prefix are 0.
\<close>

definition heap_of :: "bool list \<Rightarrow> nat \<Rightarrow> bool" where
  "heap_of bs i = (i < length bs \<and> bs ! i)"

definition draws_of :: "nat list \<Rightarrow> nat \<Rightarrow> nat" where
  "draws_of xs k = (if k < length xs then xs ! k else 0)"

subsection \<open>Directed cycles\<close>

text \<open>
  The edges of a graph between vertices below \<open>d\<close>, and a directed cycle among them:
  a vertex that reaches itself along at least one edge.
\<close>

definition edges_within :: "Graph \<Rightarrow> 32 word \<Rightarrow> (32 word \<times> 32 word) set" where
  "edges_within g d = {(a, b). a < d \<and> b < d \<and> has_edge g a b = Inr True}"

definition has_cycle_within :: "Graph \<Rightarrow> 32 word \<Rightarrow> bool" where
  "has_cycle_within g d = (\<exists>v. (v, v) \<in> (edges_within g d)\<^sup>+)"

subsection \<open>Forward edges\<close>

text \<open>
  A cell of the matrix is a forward cell when it is the cell of a pair \<open>(from, to)\<close> with
  \<open>from < to < n\<close>. \<open>only_forward_added n g0 g\<close>: the graph \<open>g\<close> has \<open>n\<close> vertices and a
  matrix as long as that of \<open>g0\<close>, and every cell set in \<open>g\<close> was set in \<open>g0\<close> already
  or is a forward cell.
\<close>

definition forward_cell :: "32 word \<Rightarrow> nat \<Rightarrow> bool" where
  "forward_cell n idx = (\<exists>from to. from < to \<and> to < n \<and> idx = unat (from + to * n))"

definition only_forward_added :: "32 word \<Rightarrow> Graph \<Rightarrow> Graph \<Rightarrow> bool" where
  "only_forward_added n g0 g =
     (num_vertices g = n \<and> length (matrix g) = length (matrix g0)
      \<and> (\<forall>idx<length (matrix g). matrix g ! idx \<longrightarrow> matrix g0 ! idx \<or> forward_cell n idx))"


subsection \<open>Counting clear cells\<close>



section \<open>Properties of the graph store\<close>

text \<open>
  C7. Within the buffer, \<open>add_edge(from, to)\<close> sets exactly the cell
  \<open>from + to * num_vertices\<close> to true and adds one to the edge counter, whatever the
  cell held before; \<open>has_edge(from, to)\<close> returns that cell. \<open>has_edge\<close> returns a
  value only: the graph it reads is not changed.
\<close>

theorem add_edge_sets_cell_and_counts:
  assumes "unat (from + to * num_vertices g) < length (matrix g)"
  shows "add_edge g from to =
           Inr (g\<lparr>matrix := (matrix g)[unat (from + to * num_vertices g) := True],
                  num_edges := num_edges g + 1\<rparr>)
         \<and> has_edge g from to = Inr (matrix g ! unat (from + to * num_vertices g))"
  using assms by (simp add: add_edge_def has_edge_def store_def load_def)

theorem add_edge_sets_cell_and_counts_witness:
  "unat ((0 :: 32 word) + 1 * num_vertices
           \<lparr>num_vertices = 2, num_edges = 1, matrix = [False, False, True, False]\<rparr>)
     < length (matrix \<lparr>num_vertices = 2, num_edges = 1, matrix = [False, False, True, False]\<rparr>)
   \<and> add_edge \<lparr>num_vertices = 2, num_edges = 1, matrix = [False, False, True, False]\<rparr> 0 1
       = Inr \<lparr>num_vertices = 2, num_edges = 2, matrix = [False, False, True, False]\<rparr>
   \<and> has_edge \<lparr>num_vertices = 2, num_edges = 1, matrix = [False, False, True, False]\<rparr> 0 1
       = Inr True"
proof -
  have h: "unat ((0 :: 32 word) + 1 * num_vertices
           \<lparr>num_vertices = 2, num_edges = 1, matrix = [False, False, True, False]\<rparr>)
     < length (matrix \<lparr>num_vertices = 2, num_edges = 1, matrix = [False, False, True, False]\<rparr>)"
    by simp
  from add_edge_sets_cell_and_counts [OF h] h show ?thesis by simp
qed

text \<open>
  C3 fails on the code. The constructor's loop runs over \<open>num_vertices\<close> cells, not over
  the \<open>num_vertices * num_vertices\<close> cells it allocated, so the cells from
  \<open>num_vertices\<close> on keep what the heap held. With two vertices and a heap of set
  cells, \<open>has_edge(1, 1)\<close> (cell 3) is true right after construction. The edge counter
  is 0, as claimed.
\<close>

theorem new_Graph_leaves_cells_uninitialised:
  "new_Graph (heap_of [True, True, True, True]) 2
     = Inr \<lparr>num_vertices = 2, num_edges = 0, matrix = [False, False, True, True]\<rparr>
   \<and> has_edge \<lparr>num_vertices = 2, num_edges = 0, matrix = [False, False, True, True]\<rparr> 1 1
       = Inr True"
  by code_simp

section \<open>Invariants of the loops\<close>

lemma add_edge_fields:
  "add_edge g a b = Inr g' \<Longrightarrow>
     num_vertices g' = num_vertices g \<and> num_edges g' = num_edges g + 1
       \<and> length (matrix g') = length (matrix g)"
  by (auto simp: add_edge_def store_def split: if_splits)

lemma add_edge_matrix:
  assumes "add_edge g a b = Inr g'"
  shows "unat (a + b * num_vertices g) < length (matrix g)
       \<and> matrix g' = (matrix g)[unat (a + b * num_vertices g) := True]
       \<and> num_vertices g' = num_vertices g"
  using assms by (auto simp: add_edge_def store_def split: if_splits)

lemma word_of_nat_mod_less:
  fixes w :: "32 word"
  assumes "w \<noteq> 0"
  shows "(word_of_nat (x mod unat w) :: 32 word) < w"
proof -
  have pos: "0 < unat w" using assms by (simp add: unat_gt_0)
  have "x mod unat w < unat w" using pos by simp
  moreover have "unat w < 2 ^ 32" using unsigned_less [of w] by simp
  ultimately have "unat (word_of_nat (x mod unat w) :: 32 word) = x mod unat w"
    by (simp add: unat_of_nat)
  with \<open>x mod unat w < unat w\<close> show ?thesis by (simp add: word_less_nat_alt)
qed

lemma reject_not_Abort: "reject s k \<noteq> Abort"
proof -
  have "uint (current_iterations s) < 256"
    using uint_bounded [of "current_iterations s"] by simp
  then show ?thesis by (simp add: reject_def MAX_ITERATIONS_def)
qed

lemma reject_Continue:
  "reject s k = Continue s' \<Longrightarrow>
     graph s' = graph s \<and> current_additional_edges s' = current_additional_edges s"
  by (auto simp: reject_def split: if_splits)

lemma accept_Continue:
  "accept s k a b = Continue s' \<Longrightarrow>
     add_edge (graph s) a b = Inr (graph s')
       \<and> current_additional_edges s' = current_additional_edges s + 1"
  by (auto simp: accept_def split: sum.splits)

lemma try_edge_Continue:
  "try_edge s k a b = Continue s' \<Longrightarrow>
     (graph s' = graph s \<and> current_additional_edges s' = current_additional_edges s)
     \<or> (add_edge (graph s) a b = Inr (graph s') \<and> has_edge (graph s) a b = Inr False
          \<and> current_additional_edges s' = current_additional_edges s + 1)"
  by (auto simp: try_edge_def split: sum.splits if_splits
           dest: reject_Continue accept_Continue)

lemma sample_step_Continue:
  assumes "sample_step rng d hc s = Continue s'"
  shows "(graph s' = graph s \<and> current_additional_edges s' = current_additional_edges s)
     \<or> (\<exists>a b. add_edge (graph s) a b = Inr (graph s') \<and> has_edge (graph s) a b = Inr False
          \<and> current_additional_edges s' = current_additional_edges s + 1
          \<and> (\<not> hc \<longrightarrow> a < b \<and> b < num_vertices (graph s)))"
proof (cases hc)
  case True
  with assms show ?thesis
    by (auto simp: sample_step_def Let_def split: if_splits
             dest!: try_edge_Continue reject_Continue)
next
  case False
  let ?n = "num_vertices (graph s)"
  let ?to = "word_of_nat (rng (draws s) mod unat ?n) :: 32 word"
  let ?from = "word_of_nat (rng (draws s + 1) mod unat ?to) :: 32 word"
  from assms False have n0: "?n \<noteq> 0"
    by (auto simp: sample_step_def Let_def split: if_splits)
  show ?thesis
  proof (cases "?to > 0")
    case pos: True
    with assms False n0 have "try_edge s (draws s + 2) ?from ?to = Continue s'"
      by (simp add: sample_step_def Let_def)
    moreover have "?from < ?to" using pos by (intro word_of_nat_mod_less) auto
    moreover have "?to < ?n" using n0 by (rule word_of_nat_mod_less)
    ultimately show ?thesis using False by (auto dest!: try_edge_Continue)
  next
    case zero: False
    with assms False n0 have "reject s (draws s + 1) = Continue s'"
      by (simp add: sample_step_def Let_def)
    then show ?thesis by (auto dest!: reject_Continue)
  qed
qed

lemma sample_step_not_Abort: "sample_step rng d hc s \<noteq> Abort"
  by (auto simp: sample_step_def Let_def try_edge_def accept_def reject_not_Abort
           split: sum.splits)

lemma sample_loop_invariant_aux:
  assumes "sample_loop rng d add hc s = Some r"
  shows "\<forall>s'. r = Inr (Finished s') \<longrightarrow> I s \<longrightarrow>
        (\<forall>t t'. I t \<and> current_additional_edges t < add
                  \<and> sample_step rng d hc t = Continue t' \<longrightarrow> I t') \<longrightarrow>
        I s' \<and> \<not> current_additional_edges s' < add"
proof (rule sample_loop.raw_induct
    [where P = "\<lambda>rng d add hc s r. \<forall>s'. r = Inr (Finished s') \<longrightarrow> I s \<longrightarrow>
        (\<forall>t t'. I t \<and> current_additional_edges t < add
                  \<and> sample_step rng d hc t = Continue t' \<longrightarrow> I t') \<longrightarrow>
        I s' \<and> \<not> current_additional_edges s' < add", OF _ assms])
  fix loop rng d add hc s r
  assume IH: "\<And>rng d add hc s r. loop rng d add hc s = Some r \<Longrightarrow>
        \<forall>s'. r = Inr (Finished s') \<longrightarrow> I s \<longrightarrow>
        (\<forall>t t'. I t \<and> current_additional_edges t < add
                  \<and> sample_step rng d hc t = Continue t' \<longrightarrow> I t') \<longrightarrow>
        I s' \<and> \<not> current_additional_edges s' < add"
    and body: "(if current_additional_edges s < add then
        (case sample_step rng d hc s of
           Continue s' \<Rightarrow> loop rng d add hc s'
         | Abort \<Rightarrow> Some (Inr Exhausted)
         | Undefined e \<Rightarrow> Some (Inl e))
      else Some (Inr (Finished s))) = Some r"
  show "\<forall>s'. r = Inr (Finished s') \<longrightarrow> I s \<longrightarrow>
        (\<forall>t t'. I t \<and> current_additional_edges t < add
                  \<and> sample_step rng d hc t = Continue t' \<longrightarrow> I t') \<longrightarrow>
        I s' \<and> \<not> current_additional_edges s' < add"
  proof (intro allI impI)
    fix s'
    assume r: "r = Inr (Finished s')" and init: "I s"
      and step: "\<forall>t t'. I t \<and> current_additional_edges t < add
                  \<and> sample_step rng d hc t = Continue t' \<longrightarrow> I t'"
    show "I s' \<and> \<not> current_additional_edges s' < add"
    proof (cases "current_additional_edges s < add")
      case False
      with body r have "s' = s" by simp
      with False init show ?thesis by simp
    next
      case True
      with body r obtain s1 where
        st: "sample_step rng d hc s = Continue s1" and
        lp: "loop rng d add hc s1 = Some r"
        by (auto split: step_result.splits)
      from step init True st have "I s1" by blast
      with IH [OF lp] r step show ?thesis by blast
    qed
  qed
qed

lemma sample_loop_invariant:
  assumes "sample_loop rng d add hc s = Some (Inr (Finished s'))"
    and "I s"
    and "\<And>t t'. I t \<Longrightarrow> current_additional_edges t < add \<Longrightarrow>
            sample_step rng d hc t = Continue t' \<Longrightarrow> I t'"
  shows "I s' \<and> \<not> current_additional_edges s' < add"
  using sample_loop_invariant_aux [OF assms(1), of I] assms(2,3) by blast

lemma sample_loop_diverges_aux:
  assumes "sample_loop rng d add hc s = Some r"
  shows "(\<forall>t. I t \<longrightarrow> current_additional_edges t < add
            \<and> (\<exists>t'. sample_step rng d hc t = Continue t' \<and> I t')) \<longrightarrow> \<not> I s"
proof (rule sample_loop.raw_induct
    [where P = "\<lambda>rng d add hc s r. (\<forall>t. I t \<longrightarrow> current_additional_edges t < add
            \<and> (\<exists>t'. sample_step rng d hc t = Continue t' \<and> I t')) \<longrightarrow> \<not> I s", OF _ assms])
  fix loop rng d add hc s r
  assume IH: "\<And>rng d add hc s r. loop rng d add hc s = Some r \<Longrightarrow>
        (\<forall>t. I t \<longrightarrow> current_additional_edges t < add
            \<and> (\<exists>t'. sample_step rng d hc t = Continue t' \<and> I t')) \<longrightarrow> \<not> I s"
    and body: "(if current_additional_edges s < add then
        (case sample_step rng d hc s of
           Continue s' \<Rightarrow> loop rng d add hc s'
         | Abort \<Rightarrow> Some (Inr Exhausted)
         | Undefined e \<Rightarrow> Some (Inl e))
      else Some (Inr (Finished s))) = Some r"
  show "(\<forall>t. I t \<longrightarrow> current_additional_edges t < add
            \<and> (\<exists>t'. sample_step rng d hc t = Continue t' \<and> I t')) \<longrightarrow> \<not> I s"
  proof (intro impI notI)
    assume step: "\<forall>t. I t \<longrightarrow> current_additional_edges t < add
            \<and> (\<exists>t'. sample_step rng d hc t = Continue t' \<and> I t')"
      and init: "I s"
    from step init obtain s1 where
      lt: "current_additional_edges s < add" and
      st: "sample_step rng d hc s = Continue s1" and i1: "I s1"
      by blast
    with body have "loop rng d add hc s1 = Some r" by simp
    from IH [OF this] step i1 show False by blast
  qed
qed

lemma sample_loop_diverges:
  assumes "I s"
    and "\<And>t. I t \<Longrightarrow> current_additional_edges t < add
            \<and> (\<exists>t'. sample_step rng d hc t = Continue t' \<and> I t')"
  shows "sample_loop rng d add hc s = None"
proof (cases "sample_loop rng d add hc s")
  case None
  then show ?thesis .
next
  case (Some r)
  from sample_loop_diverges_aux [OF Some, of I] assms show ?thesis by blast
qed

lemma sample_loop_counts:
  assumes run: "sample_loop rng d add hc s = Some (Inr (Finished s'))"
    and le: "current_additional_edges s \<le> add"
  shows "num_vertices (graph s') = num_vertices (graph s)
       \<and> num_edges (graph s') - current_additional_edges s'
           = num_edges (graph s) - current_additional_edges s
       \<and> current_additional_edges s' = add"
proof -
  let ?I = "\<lambda>t. num_vertices (graph t) = num_vertices (graph s)
       \<and> num_edges (graph t) - current_additional_edges t
           = num_edges (graph s) - current_additional_edges s
       \<and> current_additional_edges t \<le> add"
  have "?I s' \<and> \<not> current_additional_edges s' < add"
  proof (rule sample_loop_invariant [OF run, of ?I])
    show "?I s" using le by simp
  next
    fix t t'
    assume inv: "?I t" and lt: "current_additional_edges t < add"
      and st: "sample_step rng d hc t = Continue t'"
    from sample_step_Continue [OF st] show "?I t'"
    proof
      assume "graph t' = graph t \<and> current_additional_edges t' = current_additional_edges t"
      with inv show ?thesis by simp
    next
      assume "\<exists>a b. add_edge (graph t) a b = Inr (graph t') \<and> has_edge (graph t) a b = Inr False
          \<and> current_additional_edges t' = current_additional_edges t + 1
          \<and> (\<not> hc \<longrightarrow> a < b \<and> b < num_vertices (graph t))"
      then obtain a b where
        ae: "add_edge (graph t) a b = Inr (graph t')" and
        c: "current_additional_edges t' = current_additional_edges t + 1"
        by blast
      from lt c have "current_additional_edges t' \<le> add" by (simp add: inc_le)
      with add_edge_fields [OF ae] c inv show ?thesis by simp
    qed
  qed
  then show ?thesis by auto
qed


lemma new_Graph_fields:
  "new_Graph heap n = Inr g \<Longrightarrow> num_vertices g = n \<and> num_edges g = 0"
  by (auto simp: new_Graph_def split: sum.splits)

lemma chain_loop_fields:
  "chain_loop g i d = Inr g' \<Longrightarrow> word_of_int i \<le> d \<Longrightarrow>
     num_vertices g' = num_vertices g \<and> num_edges g' = num_edges g + (d - word_of_int i)"
proof (induction g i d rule: chain_loop.induct)
  case (1 g i d)
  show ?case
  proof (cases "word_of_int i < d")
    case True
    from True "1.prems"(1) obtain g1 where
      a: "add_edge g (word_of_int (i - 1)) (word_of_int i) = Inr g1" and
      b: "\<not> INT_MAX \<le> i" and
      c: "chain_loop g1 (i + 1) d = Inr g'"
      by (subst (asm) chain_loop.simps) (auto split: sum.splits if_splits)
    have le: "(word_of_int (i + 1) :: 32 word) \<le> d"
      using True by (simp add: inc_le)
    from "1.IH" [OF True a b c le] add_edge_fields [OF a]
    show ?thesis by simp
  next
    case False
    with "1.prems" have "word_of_int i = d" by simp
    moreover from False "1.prems"(1) have "g' = g"
      by (subst (asm) chain_loop.simps) simp
    ultimately show ?thesis by simp
  qed
qed

lemma chain_loop_zero: "chain_loop g 1 0 = Inr g"
  by (subst chain_loop.simps) simp


section \<open>Edge counts\<close>

lemma generate_Finished:
  assumes "generate heap rng n d add hc = Some (Inr (Finished s))"
  obtains g0 g1 where "new_Graph heap n = Inr g0" and "chain_loop g0 1 d = Inr g1"
    and "sample_loop rng d add hc
           \<lparr>graph = g1, current_additional_edges = 0, current_iterations = 0, draws = 0\<rparr>
         = Some (Inr (Finished s))"
  using assms by (auto simp: generate_def split: sum.splits)

lemma generate_counts:
  assumes "generate heap rng n d add hc = Some (Inr (Finished s))"
  shows "num_vertices (graph s) = n
       \<and> num_edges (graph s) = (if d = 0 then add else d - 1 + add)"
proof -
  from assms obtain g0 g1 where
    g0: "new_Graph heap n = Inr g0" and g1: "chain_loop g0 1 d = Inr g1" and
    lp: "sample_loop rng d add hc
           \<lparr>graph = g1, current_additional_edges = 0, current_iterations = 0, draws = 0\<rparr>
         = Some (Inr (Finished s))"
    by (rule generate_Finished)
  have chain: "num_vertices g1 = n \<and> num_edges g1 = (if d = 0 then 0 else d - 1)"
  proof (cases "d = 0")
    case True
    with g1 have "g1 = g0" by (simp add: chain_loop_zero)
    with True new_Graph_fields [OF g0] show ?thesis by simp
  next
    case False
    then have "0 < d" by (simp add: word_greater_zero_iff)
    then have "0 + 1 \<le> d" by (rule inc_le)
    then have "(word_of_int 1 :: 32 word) \<le> d" by simp
    from chain_loop_fields [OF g1 this] new_Graph_fields [OF g0] False
    show ?thesis by simp
  qed
  let ?s0 = "\<lparr>graph = g1, current_additional_edges = 0, current_iterations = 0,
              draws = 0\<rparr>"
  have le0: "current_additional_edges ?s0 \<le> add" by simp
  note sc = sample_loop_counts [OF lp le0]
  have v: "num_vertices (graph s) = num_vertices g1"
    using sc [THEN conjunct1] by simp
  have c: "current_additional_edges s = add"
    using sc [THEN conjunct2, THEN conjunct2] .
  have e: "num_edges (graph s) - current_additional_edges s = num_edges g1"
    using sc [THEN conjunct2, THEN conjunct1] by simp
  from e have "num_edges (graph s) = num_edges g1 + add"
    unfolding c by (simp add: diff_eq_eq)
  with v chain show ?thesis by (simp add: add.commute)
qed












text \<open>
  C10. With \<open>min_graph_depth = 0\<close> the chain loop adds no edge and returns the graph as it
  was, no run of \<open>main\<close> ends in the depth validation message, and whenever generation
  succeeds the edge counter equals \<open>additional_edges\<close>.
\<close>

theorem depth_zero_edge_count:
  "chain_loop g 1 0 = Inr g
   \<and> main_prog heap rng rnd argc n 0 additional_edges argv4 argv5
       \<noteq> Some (Inr \<lparr>exit_code = 1, console = depth_text, out_file = None\<rparr>)
   \<and> (generate heap rng n 0 additional_edges has_cicles = Some (Inr (Finished s))
        \<longrightarrow> num_edges (graph s) = additional_edges)"
proof (intro conjI impI)
  show "chain_loop g 1 0 = Inr g" by (rule chain_loop_zero)
next
  show "main_prog heap rng rnd argc n 0 additional_edges argv4 argv5
       \<noteq> Some (Inr \<lparr>exit_code = 1, console = depth_text, out_file = None\<rparr>)"
    by (simp add: main_prog_def Let_def usage_text_def depth_text_def cicles_text_def
          iterations_text_def split: option.splits sum.splits loop_exit.splits)
next
  assume "generate heap rng n 0 additional_edges has_cicles = Some (Inr (Finished s))"
  from generate_counts [OF this] show "num_edges (graph s) = additional_edges" by simp
qed

theorem depth_zero_edge_count_witness:
  "generate (heap_of []) (draws_of [2, 0, 1, 0]) 3 0 2 False
     = Some (Inr (Finished
         \<lparr>graph = \<lparr>num_vertices = 3, num_edges = 2,
                   matrix = [False, False, False, True, False, False, True, False, False]\<rparr>,
          current_additional_edges = 2, current_iterations = 0, draws = 4\<rparr>))
   \<and> num_edges \<lparr>num_vertices = 3, num_edges = 2,
                   matrix = [False, False, False, True, False, False, True, False, False]\<rparr>
       = (2 :: 32 word)"
proof -
  have run: "generate (heap_of []) (draws_of [2, 0, 1, 0]) 3 0 2 False
     = Some (Inr (Finished
         \<lparr>graph = \<lparr>num_vertices = 3, num_edges = 2,
                   matrix = [False, False, False, True, False, False, True, False, False]\<rparr>,
          current_additional_edges = 2, current_iterations = 0, draws = 4\<rparr>))"
    by code_simp
  from depth_zero_edge_count [where heap = "heap_of []" and rng = "draws_of [2, 0, 1, 0]"
      and n = 3 and additional_edges = 2 and has_cicles = False and s =
      "\<lparr>graph = \<lparr>num_vertices = 3, num_edges = 2,
                   matrix = [False, False, False, True, False, False, True, False, False]\<rparr>,
          current_additional_edges = 2, current_iterations = 0, draws = 4\<rparr>"] run
  show ?thesis by simp
qed

section \<open>The retry bound\<close>

text \<open>
  C2 fails on the code. The retry counter is a \<open>uint8_t\<close>, so it never exceeds 255 and
  the test \<open>current_iterations > 256\<close> is never true: no step of the loop aborts. With one
  vertex, depth 1, one additional edge and no cycles, every draw is rejected
  (\<open>rand_to = 0\<close>), so the loop, and with it \<open>main\<close>, never returns, whatever the heap and
  the random numbers.
\<close>

theorem retry_bound_never_fires:
  "sample_step rng d hc s \<noteq> Abort
   \<and> main_prog heap rng rnd 7 1 1 1 ''false'' ''false'' = None"
proof
  show "sample_step rng d hc s \<noteq> Abort" by (rule sample_step_not_Abort)
next
  have g0: "new_Graph heap 1 = Inr \<lparr>num_vertices = 1, num_edges = 0, matrix = [False]\<rparr>"
    by (simp add: new_Graph_def store_def)
  have ch: "chain_loop g 1 1 = Inr g" for g
    by (subst chain_loop.simps) simp
  let ?I = "\<lambda>t::loop_state. current_additional_edges t = 0 \<and> num_vertices (graph t) = 1"
  have "sample_loop rng 1 1 False
          \<lparr>graph = \<lparr>num_vertices = 1, num_edges = 0, matrix = [False]\<rparr>,
           current_additional_edges = 0, current_iterations = 0, draws = 0\<rparr> = None"
  proof (rule sample_loop_diverges [of ?I])
    show "?I \<lparr>graph = \<lparr>num_vertices = 1, num_edges = 0, matrix = [False]\<rparr>,
           current_additional_edges = 0, current_iterations = 0, draws = 0\<rparr>"
      by simp
  next
    fix t
    assume inv: "?I t"
    then have "sample_step rng 1 False t = reject t (draws t + 1)"
      by (simp add: sample_step_def Let_def)
    moreover have "reject t (draws t + 1)
        = Continue (t\<lparr>current_iterations := current_iterations t + 1, draws := draws t + 1\<rparr>)"
      using reject_not_Abort [of t "draws t + 1"] by (simp add: reject_def split: if_splits)
    ultimately show "current_additional_edges t < 1
        \<and> (\<exists>t'. sample_step rng 1 False t = Continue t' \<and> ?I t')"
      using inv by simp
  qed
  then have "generate heap rng 1 1 1 False = None"
    by (simp add: generate_def g0 ch)
  then show "main_prog heap rng rnd 7 1 1 1 ''false'' ''false'' = None"
    by (simp add: main_prog_def)
qed



section \<open>Exit codes and the output file\<close>

lemma sample_loop_never_Exhausted:
  assumes "sample_loop rng d add hc s = Some r"
  shows "r \<noteq> Inr Exhausted"
proof (rule sample_loop.raw_induct
    [where P = "\<lambda>rng d add hc s r. r \<noteq> Inr Exhausted", OF _ assms])
  fix loop rng d add hc s r
  assume IH: "\<And>rng d add hc s r. loop rng d add hc s = Some r \<Longrightarrow> r \<noteq> Inr Exhausted"
    and body: "(if current_additional_edges s < add then
        (case sample_step rng d hc s of
           Continue s' \<Rightarrow> loop rng d add hc s'
         | Abort \<Rightarrow> Some (Inr Exhausted)
         | Undefined e \<Rightarrow> Some (Inl e))
      else Some (Inr (Finished s))) = Some r"
  show "r \<noteq> Inr Exhausted"
  proof (cases "current_additional_edges s < add")
    case False
    with body show ?thesis by auto
  next
    case True
    show ?thesis
    proof (cases "sample_step rng d hc s")
      case (Continue s1)
      with True body have "loop rng d add hc s1 = Some r" by simp
      then show ?thesis by (rule IH)
    next
      case Abort
      with sample_step_not_Abort [of rng d hc s] show ?thesis by simp
    next
      case (Undefined e)
      with True body show ?thesis by auto
    qed
  qed
qed

lemma generate_never_Exhausted:
  "generate heap rng n d add hc \<noteq> Some (Inr Exhausted)"
proof
  assume a: "generate heap rng n d add hc = Some (Inr Exhausted)"
  then obtain s0 where "sample_loop rng d add hc s0 = Some (Inr Exhausted)"
    by (auto simp: generate_def split: sum.splits)
  from sample_loop_never_Exhausted [OF this] show False by simp
qed


text \<open>
  The two validation failures (\<open>min_graph_depth > num_vertices\<close>, or \<open>has_cicles\<close> with
  \<open>additional_edges < 1\<close>) return exit code 1 with the output file never opened. A run
  of \<open>main\<close> that returns exit code 1 has not opened the output file, and it is one of
  these two failures: its message is one of the two validation messages.
\<close>

lemma validation_failure_exits_before_open:
  "(argc = 7 \<and> (n < min_graph_depth \<or> (argv4 = ''true'' \<and> additional_edges < 1)) \<longrightarrow>
      (\<exists>msg. main_prog heap rng rnd argc n min_graph_depth additional_edges argv4 argv5
               = Some (Inr \<lparr>exit_code = 1, console = msg, out_file = None\<rparr>)))
   \<and> (\<forall>r. main_prog heap rng rnd argc n min_graph_depth additional_edges argv4 argv5
             = Some (Inr r) \<and> exit_code r = 1 \<longrightarrow>
           out_file r = None \<and> (console r = depth_text \<or> console r = cicles_text))"
  using generate_never_Exhausted [of heap rng n min_graph_depth additional_edges "argv4 = ''true''"]
  by (auto simp: main_prog_def Let_def
           split: option.splits sum.splits loop_exit.splits if_splits)

text \<open>
  C9 fails on the code, through the retry counter (see C2). The claim counts sampling
  exhaustion among the error exits with code 1. No generation ever ends in
  \<open>Exhausted\<close>, the only way to the \<open>return 1\<close> of the sampling loop; a run whose draws
  are all rejected does not exit at all. With 2 vertices, depth 2, one additional edge
  and no cycles the only forward edge \<open>(0, 1)\<close> is the chain edge, every draw is
  rejected, and \<open>main\<close> never returns, whatever the heap and the random numbers.
\<close>

theorem exhaustion_never_exits:
  "generate heap rng n min_graph_depth additional_edges has_cicles \<noteq> Some (Inr Exhausted)
   \<and> main_prog heap rng rnd 7 2 2 1 ''false'' ''false'' = None"
proof
  show "generate heap rng n min_graph_depth additional_edges has_cicles
          \<noteq> Some (Inr Exhausted)"
    by (rule generate_never_Exhausted)
next
  let ?g1 = "\<lparr>num_vertices = 2, num_edges = 1, matrix = [False, False, True, heap 3]\<rparr>"
  have g0: "new_Graph heap 2
      = Inr \<lparr>num_vertices = 2, num_edges = 0, matrix = [False, False, heap 2, heap 3]\<rparr>"
    by code_simp
  have ch: "chain_loop \<lparr>num_vertices = 2, num_edges = 0,
                        matrix = [False, False, heap 2, heap 3]\<rparr> 1 2 = Inr ?g1"
    by code_simp
  let ?I = "\<lambda>t :: loop_state. current_additional_edges t = 0 \<and> graph t = ?g1"
  have "sample_loop rng 2 1 False
          \<lparr>graph = ?g1, current_additional_edges = 0, current_iterations = 0, draws = 0\<rparr>
        = None"
  proof (rule sample_loop_diverges [of ?I])
    show "?I \<lparr>graph = ?g1, current_additional_edges = 0, current_iterations = 0,
              draws = 0\<rparr>"
      by simp
  next
    fix t
    assume inv: "?I t"
    have rej: "reject t k
        = Continue (t\<lparr>current_iterations := current_iterations t + 1, draws := k\<rparr>)" for k
      using reject_not_Abort [of t k] by (simp add: reject_def split: if_splits)
    have "rng (draws t) mod 2 = 0 \<or> rng (draws t) mod 2 = 1" by arith
    then have "\<exists>k. sample_step rng 2 False t = reject t k"
    proof
      assume "rng (draws t) mod 2 = 0"
      with inv have "sample_step rng 2 False t = reject t (draws t + 1)"
        by (simp add: sample_step_def Let_def)
      then show ?thesis by blast
    next
      assume "rng (draws t) mod 2 = 1"
      with inv have "sample_step rng 2 False t = reject t (draws t + 2)"
        by (simp add: sample_step_def Let_def try_edge_def has_edge_def load_def)
      then show ?thesis by blast
    qed
    then obtain k where "sample_step rng 2 False t = reject t k" by blast
    with rej [of k] inv
    show "current_additional_edges t < 1
        \<and> (\<exists>t'. sample_step rng 2 False t = Continue t' \<and> ?I t')"
      by simp
  qed
  then have "generate heap rng 2 2 1 False = None"
    by (simp add: generate_def g0 ch)
  then show "main_prog heap rng rnd 7 2 2 1 ''false'' ''false'' = None"
    by (simp add: main_prog_def)
qed

text \<open>
  C6 fails on the code, through the constructor's loop (see C3): of the 25 cells only
  the first 5 are cleared. When the heap holds a set cell at offset 24, the run with
  \<open>num_vertices = 5\<close>, \<open>min_graph_depth = 3\<close>, no additional edges, no cycles and no
  shuffle prints a third edge line \<open>4 4\<close>, for every random seed.
\<close>

theorem scenario_output_depends_on_heap:
  "main_prog (heap_of (replicate 24 False @ [True])) rng rnd 7 5 3 0 ''false'' ''false''
     = Some (Inr \<lparr>exit_code = 0, console = [],
                  out_file = Some ''5\<newline>2\<newline>0 1\<newline>1 2\<newline>4 4\<newline>''\<rparr>)"
  by code_simp


text \<open>On a heap of clear cells the same run prints the two chain edges only.\<close>

lemma scenario_output_clear_heap:
  "main_prog (heap_of []) rng rnd 7 5 3 0 ''false'' ''false''
     = Some (Inr \<lparr>exit_code = 0, console = [],
                  out_file = Some ''5\<newline>2\<newline>0 1\<newline>1 2\<newline>''\<rparr>)"
  by code_simp


section \<open>The first additional edge\<close>

lemma word_less_3_cases: "(a :: 32 word) < 3 \<Longrightarrow> a = 0 \<or> a = 1 \<or> a = 2"
  by unat_arith

lemma no_cycle_if_increasing:
  assumes "\<And>a b. (a, b) \<in> r \<Longrightarrow> a < (b :: 32 word)"
  shows "(v, v) \<notin> r\<^sup>+"
proof
  assume "(v, v) \<in> r\<^sup>+"
  moreover have "(a, b) \<in> r\<^sup>+ \<Longrightarrow> a < b" for a b
    by (induction rule: trancl.induct) (auto dest: assms)
  ultimately show False by blast
qed

lemma first_edge_run:
  "generate (heap_of []) (draws_of [1777745189, 623410812]) 3 3 1 True
     = Some (Inr (Finished
         \<lparr>graph = \<lparr>num_vertices = 3, num_edges = 3,
                   matrix = [False, False, False, True, False, False, True, True, False]\<rparr>,
          current_additional_edges = 1, current_iterations = 0, draws = 2\<rparr>))"
proof -
  let ?rng = "draws_of [1777745189, 623410812]"
  let ?g1 = "\<lparr>num_vertices = 3, num_edges = 2,
              matrix = [False, False, False, True, False, False, False, True, False]\<rparr>"
  let ?s0 = "\<lparr>graph = ?g1, current_additional_edges = 0, current_iterations = 0,
              draws = 0\<rparr>"
  let ?s1 = "\<lparr>graph = \<lparr>num_vertices = 3, num_edges = 3,
                   matrix = [False, False, False, True, False, False, True, True, False]\<rparr>,
          current_additional_edges = 1, current_iterations = 0, draws = 2\<rparr>"
  have g0: "new_Graph (heap_of []) 3
      = Inr \<lparr>num_vertices = 3, num_edges = 0, matrix = replicate 9 False\<rparr>"
    by code_simp
  have g1: "chain_loop \<lparr>num_vertices = 3, num_edges = 0, matrix = replicate 9 False\<rparr> 1 3
      = Inr ?g1"
    by code_simp
  have d0: "?rng 0 mod 3 = 2" by (simp add: draws_of_def)
  have d1: "?rng (Suc 0) mod 3 = 0" by (simp add: draws_of_def)
  have st: "sample_step ?rng 3 True ?s0 = Continue ?s1"
    by (simp add: sample_step_def Let_def d0 d1 try_edge_def has_edge_def load_def
          accept_def add_edge_def store_def)
  have "sample_loop ?rng 3 1 True ?s0 = sample_loop ?rng 3 1 True ?s1"
    by (subst sample_loop.simps) (simp add: st)
  also have "\<dots> = Some (Inr (Finished ?s1))"
    by (subst sample_loop.simps) simp
  finally show ?thesis by (simp add: generate_def g0 g1)
qed

text \<open>
  C1 fails on the code. The first additional edge has both ends below
  \<open>min_graph_depth\<close>, but it is accepted whenever the ends differ and the edge is new,
  also when it points forward. With 3 vertices, depth 3, one additional edge and the
  draws 1777745189 and 623410812 (the first two values of \<open>minstd_rand0\<close> seeded with
  1700000011; they are 2 and 0 modulo 3), the edge \<open>(0, 2)\<close> is added to the chain
  \<open>0 \<rightarrow> 1 \<rightarrow> 2\<close>: generation succeeds and every edge of the graph goes from a smaller
  to a larger index, so there is no directed cycle.
\<close>

theorem first_edge_can_be_forward:
  "generate (heap_of []) (draws_of [1777745189, 623410812]) 3 3 1 True
     = Some (Inr (Finished
         \<lparr>graph = \<lparr>num_vertices = 3, num_edges = 3,
                   matrix = [False, False, False, True, False, False, True, True, False]\<rparr>,
          current_additional_edges = 1, current_iterations = 0, draws = 2\<rparr>))
   \<and> \<not> has_cycle_within
         \<lparr>num_vertices = 3, num_edges = 3,
          matrix = [False, False, False, True, False, False, True, True, False]\<rparr> 3"
proof
  show "generate (heap_of []) (draws_of [1777745189, 623410812]) 3 3 1 True
     = Some (Inr (Finished
         \<lparr>graph = \<lparr>num_vertices = 3, num_edges = 3,
                   matrix = [False, False, False, True, False, False, True, True, False]\<rparr>,
          current_additional_edges = 1, current_iterations = 0, draws = 2\<rparr>))"
    by (rule first_edge_run)
next
  let ?g = "\<lparr>num_vertices = 3, num_edges = 3,
          matrix = [False, False, False, True, False, False, True, True, False]\<rparr>"
  have "a < b" if "(a, b) \<in> edges_within ?g 3" for a b
  proof -
    from that have a: "a < 3" and b: "b < 3" and e: "has_edge ?g a b = Inr True"
      by (simp_all add: edges_within_def)
    from word_less_3_cases [OF a] word_less_3_cases [OF b] e show ?thesis
      by (auto simp: has_edge_def load_def)
  qed
  then have "(v, v) \<notin> (edges_within ?g 3)\<^sup>+" for v
    by (rule no_cycle_if_increasing)
  then show "\<not> has_cycle_within ?g 3" by (simp add: has_cycle_within_def)
qed


section \<open>Output labels\<close>

lemma unat_word_of_nat_small: "x < 2 ^ 32 \<Longrightarrow> unat (word_of_nat x :: 32 word) = x"
  by (simp add: unat_of_nat)

lemma unat_word_of_int_small:
  assumes "0 \<le> i" "i \<le> INT_MAX"
  shows "unat (word_of_int i :: 32 word) = nat i"
proof -
  have "nat i < 2 ^ 32" using assms by (simp add: INT_MAX_def)
  then have "unat (word_of_nat (nat i) :: 32 word) = nat i"
    by (rule unat_word_of_nat_small)
  then show ?thesis unfolding word_of_int_nat [OF assms(1)] .
qed

lemma number_loop_result:
  "number_loop n i acc = Inr vn \<Longrightarrow> 0 \<le> i \<Longrightarrow> i \<le> INT_MAX \<Longrightarrow>
     vn = acc @ map word_of_nat [nat i..<unat n]"
proof (induction n i acc rule: number_loop.induct)
  case (1 n i acc)
  have ui: "unat (word_of_int i :: 32 word) = nat i"
    using "1.prems"(2,3) by (rule unat_word_of_int_small)
  show ?case
  proof (cases "word_of_int i < n")
    case True
    from "1.prems"(1) have body: "(if INT_MAX \<le> i then Inl SignedOverflow
         else number_loop n (i + 1) (acc @ [word_of_int i])) = Inr vn"
      by (subst (asm) number_loop.simps) (simp add: True)
    then have nmax: "\<not> INT_MAX \<le> i" by (auto split: if_splits)
    with body have rec: "number_loop n (i + 1) (acc @ [word_of_int i]) = Inr vn" by simp
    from True ui have lt: "nat i < unat n" by (simp add: word_less_nat_alt)
    have ih: "vn = (acc @ [word_of_int i]) @ map word_of_nat [nat (i + 1)..<unat n]"
    proof (rule "1.IH" [OF True nmax rec])
      show "0 \<le> i + 1" using "1.prems"(2) by simp
      show "i + 1 \<le> INT_MAX" using nmax by simp
    qed
    have "nat (i + 1) = Suc (nat i)" using "1.prems"(2) by simp
    with upt_conv_Cons [OF lt] have up: "[nat i..<unat n] = nat i # [nat (i + 1)..<unat n]"
      by (simp only:)
    have wi: "(word_of_nat (nat i) :: 32 word) = word_of_int i"
      using "1.prems"(2) by (rule word_of_int_nat [symmetric])
    have "acc @ map word_of_nat [nat i..<unat n]
        = acc @ word_of_nat (nat i) # map word_of_nat [nat (i + 1)..<unat n]"
      by (simp only: up list.map)
    also have "\<dots> = (acc @ [word_of_int i]) @ map word_of_nat [nat (i + 1)..<unat n]"
      by (simp only: wi append_assoc append_Cons append_Nil)
    finally show ?thesis using ih by (simp only:)
  next
    case False
    with "1.prems"(1) have "vn = acc"
      by (subst (asm) number_loop.simps) simp
    moreover from False ui have "unat n \<le> nat i" by (simp add: word_less_nat_alt)
    ultimately show ?thesis by simp
  qed
qed

lemma length_swap: "length (swap xs i j) = length xs"
  by (simp add: swap_def)

lemma mset_swap_list: "i < length xs \<Longrightarrow> j < length xs \<Longrightarrow> mset (swap xs i j) = mset xs"
  unfolding swap_def by (rule mset_swap)

lemma length_shuffle_loop: "length (shuffle_loop rnd k xs) = length xs"
  by (induction k) (simp_all add: length_swap)

lemma mset_shuffle_loop: "k < length xs \<Longrightarrow> mset (shuffle_loop rnd k xs) = mset xs"
proof (induction k)
  case 0
  show ?case by simp
next
  case (Suc k)
  have "rnd (Suc k) mod (Suc k + 1) < length (shuffle_loop rnd k xs)"
  proof -
    have "rnd (Suc k) mod (Suc k + 1) < Suc k + 1" by (rule mod_less_divisor) simp
    then have "rnd (Suc k) mod (Suc k + 1) \<le> Suc k" by linarith
    with Suc.prems show ?thesis unfolding length_shuffle_loop by linarith
  qed
  moreover have "Suc k < length (shuffle_loop rnd k xs)"
    using Suc.prems by (simp add: length_shuffle_loop)
  ultimately have "mset (shuffle_loop rnd (Suc k) xs) = mset (shuffle_loop rnd k xs)"
    by (simp add: mset_swap_list)
  with Suc show ?case by simp
qed

lemma mset_random_shuffle: "mset (random_shuffle rnd xs) = mset xs"
proof (cases xs)
  case Nil
  then show ?thesis by (simp add: random_shuffle_def)
next
  case (Cons x ys)
  then have "length xs - 1 < length xs" by simp
  then show ?thesis unfolding random_shuffle_def by (rule mset_shuffle_loop)
qed

lemma vertex_numbers_identity:
  assumes "number_loop n 0 [] = Inr vn"
  shows "vn = map word_of_nat [0..<unat n]"
  using number_loop_result [OF assms] by (simp add: INT_MAX_def)

lemma distinct_identity_labels: "distinct (map word_of_nat [0..<unat (n :: 32 word)] :: 32 word list)"
proof -
  have "inj_on (word_of_nat :: nat \<Rightarrow> 32 word) {0..<unat n}"
  proof (rule inj_onI)
    fix x y
    assume x: "x \<in> {0..<unat n}" and y: "y \<in> {0..<unat n}"
      and eq: "(word_of_nat x :: 32 word) = word_of_nat y"
    have "unat n < 2 ^ 32" using unsigned_less [of n] by simp
    with x y have "x < 2 ^ 32" and "y < 2 ^ 32" by simp_all
    then have ux: "unat (word_of_nat x :: 32 word) = x"
      and uy: "unat (word_of_nat y :: 32 word) = y"
      by (simp_all add: unat_of_nat)
    have e: "unat (word_of_nat x :: 32 word) = unat (word_of_nat y :: 32 word)"
      using eq by simp
    show "x = y" using e unfolding ux uy .
  qed
  then show ?thesis by (simp add: distinct_map)
qed

lemma set_identity_labels:
  "set (map word_of_nat [0..<unat (n :: 32 word)] :: 32 word list) = {v. v < n}"
proof (intro set_eqI iffI)
  fix v :: "32 word"
  assume "v \<in> set (map word_of_nat [0..<unat n])"
  then obtain i where i: "i < unat n" and v: "v = word_of_nat i" by auto
  have "unat n < 2 ^ 32" using unsigned_less [of n] by simp
  with i have "unat (word_of_nat i :: 32 word) = i" by (simp add: unat_of_nat)
  with i v show "v \<in> {v. v < n}" by (simp add: word_less_nat_alt)
next
  fix v :: "32 word"
  assume "v \<in> {v. v < n}"
  then have "unat v < unat n" by (simp add: word_less_nat_alt)
  moreover have "v = word_of_nat (unat v)" by simp
  ultimately show "v \<in> set (map word_of_nat [0..<unat n])"
    by (metis (no_types, lifting) atLeastLessThan_iff atLeast_upt image_eqI set_map
        lessThan_iff set_upt zero_le)
qed


lemma print_row_result:
  "print_row g vn i js = Inr row \<Longrightarrow>
     row = concat (map (edge_line vn i)
             (filter (\<lambda>j. has_edge g (word_of_nat i) (word_of_nat j) = Inr True) js))"
proof (induction js arbitrary: row)
  case Nil
  then show ?case by simp
next
  case (Cons j js)
  from Cons.prems obtain b rest where
    b: "has_edge g (word_of_nat i) (word_of_nat j) = Inr b" and
    rest: "print_row g vn i js = Inr rest" and
    row: "row = (if b then edge_line vn i j else []) @ rest"
    by (auto split: sum.splits)
  from Cons.IH [OF rest] b row show ?case by simp
qed

lemma print_rows_result:
  "print_rows g vn is = Inr t \<Longrightarrow>
     t = concat (map (\<lambda>i. concat (map (edge_line vn i)
            (filter (\<lambda>j. has_edge g (word_of_nat i) (word_of_nat j) = Inr True)
               [0..<unat (num_vertices g)]))) is)"
proof (induction "is" arbitrary: t)
  case Nil
  then show ?case by simp
next
  case (Cons i "is")
  from Cons.prems obtain row rest where
    row: "print_row g vn i [0..<unat (num_vertices g)] = Inr row" and
    rest: "print_rows g vn is = Inr rest" and
    t: "t = row @ rest"
    by (auto split: sum.splits)
  from Cons.IH [OF rest] print_row_result [OF row] t show ?case by simp
qed

lemma vertex_labels_False:
  assumes "vertex_labels rnd False g = Inr ids"
  shows "ids = map word_of_nat [0..<unat (num_vertices g)]"
proof -
  from assms have "number_loop (num_vertices g) 0 [] = Inr ids"
    by (auto simp: vertex_labels_def split: sum.splits)
  then show ?thesis by (rule vertex_numbers_identity)
qed

lemma vertex_labels_True:
  assumes "vertex_labels rnd True g = Inr labels"
  shows "mset labels = mset (map word_of_nat [0..<unat (num_vertices g)] :: 32 word list)"
proof -
  from assms obtain ids where ids: "number_loop (num_vertices g) 0 [] = Inr ids"
    and l: "labels = random_shuffle rnd ids"
    by (auto simp: vertex_labels_def split: sum.splits)
  from vertex_numbers_identity [OF ids] l show ?thesis
    by (simp add: mset_random_shuffle)
qed

text \<open>
  C8. Without shuffling the label list is \<open>0, 1, ..., num_vertices - 1\<close>, so the label
  of every internal index is the index itself. With shuffling the label list is a
  permutation of that list: it has the same elements with the same multiplicities, has
  \<open>num_vertices\<close> entries, no repetition, and its elements are exactly the numbers below
  \<open>num_vertices\<close>. The text written is the two header lines followed, in the order of the
  two nested loops over internal indices, by one line for each pair \<open>(i, j)\<close> that
  \<open>has_edge\<close> holds of in the graph as generation left it, with the labels of \<open>i\<close> and
  \<open>j\<close>: the labels enter the printed line only, the stored adjacency is read and
  not changed.
\<close>

theorem labels_identity_or_permutation:
  "(vertex_labels rnd False g = Inr ids \<longrightarrow>
      ids = map word_of_nat [0..<unat (num_vertices g)]
      \<and> (\<forall>i<unat (num_vertices g). unat (ids ! i) = i))
   \<and> (vertex_labels rnd True g = Inr labels \<longrightarrow>
      mset labels = mset (map word_of_nat [0..<unat (num_vertices g)] :: 32 word list)
      \<and> length labels = unat (num_vertices g)
      \<and> distinct labels \<and> set labels = {v. v < num_vertices g})
   \<and> (write_graph rnd shuffle g = Inr contents \<longrightarrow>
      (\<exists>vn. vertex_labels rnd shuffle g = Inr vn
         \<and> contents = to_string (unat (num_vertices g)) @ [CHR 0x0A]
              @ to_string (unat (num_edges g)) @ [CHR 0x0A]
              @ concat (map (\<lambda>i. concat (map (edge_line vn i)
                   (filter (\<lambda>j. has_edge g (word_of_nat i) (word_of_nat j) = Inr True)
                      [0..<unat (num_vertices g)])))
                  [0..<unat (num_vertices g)])))"
proof (intro conjI impI)
  assume a: "vertex_labels rnd False g = Inr ids"
  show "ids = map word_of_nat [0..<unat (num_vertices g)]"
    using a by (rule vertex_labels_False)
  show "\<forall>i<unat (num_vertices g). unat (ids ! i) = i"
  proof (intro allI impI)
    fix i
    assume i: "i < unat (num_vertices g)"
    have "unat (num_vertices g) < 2 ^ 32" using unsigned_less [of "num_vertices g"] by simp
    with i have "i < 2 ^ 32" by simp
    then have "unat (word_of_nat i :: 32 word) = i" by (rule unat_word_of_nat_small)
    with i vertex_labels_False [OF a] show "unat (ids ! i) = i" by simp
  qed
next
  assume a: "vertex_labels rnd True g = Inr labels"
  note m = vertex_labels_True [OF a]
  show "mset labels = mset (map word_of_nat [0..<unat (num_vertices g)] :: 32 word list)"
    by (rule m)
  from mset_eq_length [OF m] show "length labels = unat (num_vertices g)" by simp
  from mset_eq_imp_distinct_iff [OF m] show "distinct labels"
    by (simp add: distinct_identity_labels)
  from mset_eq_setD [OF m] show "set labels = {v. v < num_vertices g}"
    by (simp only: set_identity_labels)
next
  assume a: "write_graph rnd shuffle g = Inr contents"
  then obtain vn edge_lines where
    vn: "vertex_labels rnd shuffle g = Inr vn" and
    el: "print_rows g vn [0..<unat (num_vertices g)] = Inr edge_lines" and
    t: "contents = to_string (unat (num_vertices g)) @ [CHR 0x0A]
              @ to_string (unat (num_edges g)) @ [CHR 0x0A] @ edge_lines"
    by (auto simp: write_graph_def split: sum.splits)
  from print_rows_result [OF el] vn t
  show "\<exists>vn. vertex_labels rnd shuffle g = Inr vn
         \<and> contents = to_string (unat (num_vertices g)) @ [CHR 0x0A]
              @ to_string (unat (num_edges g)) @ [CHR 0x0A]
              @ concat (map (\<lambda>i. concat (map (edge_line vn i)
                   (filter (\<lambda>j. has_edge g (word_of_nat i) (word_of_nat j) = Inr True)
                      [0..<unat (num_vertices g)])))
                  [0..<unat (num_vertices g)])"
    by blast
qed

theorem labels_identity_or_permutation_witness:
  "vertex_labels (draws_of [0, 0, 0]) False
      \<lparr>num_vertices = 3, num_edges = 2,
        matrix = [False, False, False, True, False, False, True, False, False]\<rparr> = Inr [0, 1, 2]
   \<and> [0, 1, 2] = (map word_of_nat [0..<unat (num_vertices
      \<lparr>num_vertices = 3, num_edges = 2,
        matrix = [False, False, False, True, False, False, True, False, False]\<rparr>)] :: 32 word list)
   \<and> vertex_labels (draws_of [0, 0, 0]) True
      \<lparr>num_vertices = 3, num_edges = 2,
        matrix = [False, False, False, True, False, False, True, False, False]\<rparr> = Inr [2, 0, 1]
   \<and> mset [2, 0, 1] = mset (map word_of_nat [0..<unat (num_vertices
      \<lparr>num_vertices = 3, num_edges = 2,
        matrix = [False, False, False, True, False, False, True, False, False]\<rparr>)] :: 32 word list)
   \<and> distinct [2, 0, 1 :: 32 word]
   \<and> write_graph (draws_of [0, 0, 0]) True
      \<lparr>num_vertices = 3, num_edges = 2,
        matrix = [False, False, False, True, False, False, True, False, False]\<rparr> = Inr ''3\<newline>2\<newline>2 0\<newline>2 1\<newline>''"
proof -
  have h1: "vertex_labels (draws_of [0, 0, 0]) False
      \<lparr>num_vertices = 3, num_edges = 2,
        matrix = [False, False, False, True, False, False, True, False, False]\<rparr> = Inr [0, 1, 2]"
    by code_simp
  have h2: "vertex_labels (draws_of [0, 0, 0]) True
      \<lparr>num_vertices = 3, num_edges = 2,
        matrix = [False, False, False, True, False, False, True, False, False]\<rparr> = Inr [2, 0, 1]"
    by code_simp
  have h3: "write_graph (draws_of [0, 0, 0]) True
      \<lparr>num_vertices = 3, num_edges = 2,
        matrix = [False, False, False, True, False, False, True, False, False]\<rparr> = Inr ''3\<newline>2\<newline>2 0\<newline>2 1\<newline>''"
    by code_simp
  from labels_identity_or_permutation [where rnd = "draws_of [0, 0, 0]" and g =
      "\<lparr>num_vertices = 3, num_edges = 2,
        matrix = [False, False, False, True, False, False, True, False, False]\<rparr>"
      and ids = "[0, 1, 2]" and labels = "[2, 0, 1]" and shuffle = True
      and contents = "''3\<newline>2\<newline>2 0\<newline>2 1\<newline>''"] h1 h2 h3
  show ?thesis by blast
qed

section \<open>Generation without cycles\<close>

lemma only_forward_added_refl: "num_vertices g = n \<Longrightarrow> only_forward_added n g g"
  by (simp add: only_forward_added_def)

lemma only_forward_added_step:
  assumes inv: "only_forward_added n g0 g"
    and ae: "add_edge g a b = Inr g'"
    and fwd: "a < b" "b < n"
  shows "only_forward_added n g0 g'"
proof -
  from inv have nv: "num_vertices g = n" and len: "length (matrix g) = length (matrix g0)"
    and cells: "\<And>idx. idx < length (matrix g) \<Longrightarrow> matrix g ! idx \<Longrightarrow>
                  matrix g0 ! idx \<or> forward_cell n idx"
    by (simp_all add: only_forward_added_def)
  let ?c = "unat (a + b * n)"
  from add_edge_matrix [OF ae] nv have c: "?c < length (matrix g)"
    and m: "matrix g' = (matrix g)[?c := True]" and nv': "num_vertices g' = n"
    by simp_all
  have fc: "forward_cell n ?c" using fwd by (auto simp: forward_cell_def)
  have "matrix g0 ! idx \<or> forward_cell n idx"
    if "idx < length (matrix g')" "matrix g' ! idx" for idx
  proof (cases "idx = ?c")
    case True
    with fc show ?thesis by simp
  next
    case False
    with that m have "idx < length (matrix g)" "matrix g ! idx" by simp_all
    then show ?thesis by (rule cells)
  qed
  with nv' len m show ?thesis by (simp add: only_forward_added_def)
qed

lemma chain_edge_forward:
  assumes "1 \<le> i" "i \<le> INT_MAX"
  shows "(word_of_int (i - 1) :: 32 word) < word_of_int i"
proof -
  have "unat (word_of_int (i - 1) :: 32 word) = nat (i - 1)"
    using assms by (intro unat_word_of_int_small) simp_all
  moreover have "unat (word_of_int i :: 32 word) = nat i"
    using assms by (intro unat_word_of_int_small) simp_all
  moreover have "nat (i - 1) < nat i" using assms(1) by simp
  ultimately show ?thesis by (simp only: word_less_nat_alt)
qed

lemma chain_loop_only_forward:
  "chain_loop g i d = Inr g' \<Longrightarrow> 1 \<le> i \<Longrightarrow> i \<le> INT_MAX \<Longrightarrow> d \<le> n \<Longrightarrow>
     only_forward_added n g0 g \<Longrightarrow> only_forward_added n g0 g'"
proof (induction g i d rule: chain_loop.induct)
  case (1 g i d)
  show ?case
  proof (cases "word_of_int i < d")
    case True
    from True "1.prems"(1) obtain g1 where
      a: "add_edge g (word_of_int (i - 1)) (word_of_int i) = Inr g1" and
      b: "\<not> INT_MAX \<le> i" and
      c: "chain_loop g1 (i + 1) d = Inr g'"
      by (subst (asm) chain_loop.simps) (auto split: sum.splits if_splits)
    have "(word_of_int i :: 32 word) < n" using True "1.prems"(4) by simp
    with "1.prems"(5) a chain_edge_forward [OF "1.prems"(2,3)]
    have inv1: "only_forward_added n g0 g1" by (rule only_forward_added_step)
    show ?thesis
    proof (rule "1.IH" [OF True a b c _ _ "1.prems"(4) inv1])
      show "1 \<le> i + 1" using "1.prems"(2) by simp
      show "i + 1 \<le> INT_MAX" using b by simp
    qed
  next
    case False
    with "1.prems"(1) have "g' = g"
      by (subst (asm) chain_loop.simps) simp
    with "1.prems"(5) show ?thesis by simp
  qed
qed

lemma sample_loop_only_forward:
  assumes run: "sample_loop rng d add False s = Some (Inr (Finished s'))"
    and inv: "only_forward_added n g0 (graph s)"
  shows "only_forward_added n g0 (graph s')"
proof -
  let ?I = "\<lambda>t :: loop_state. only_forward_added n g0 (graph t)"
  have "?I s' \<and> \<not> current_additional_edges s' < add"
  proof (rule sample_loop_invariant [OF run, of ?I])
    show "?I s" by (rule inv)
  next
    fix t t'
    assume it: "?I t" and st: "sample_step rng d False t = Continue t'"
    from sample_step_Continue [OF st] show "?I t'"
    proof
      assume "graph t' = graph t \<and> current_additional_edges t' = current_additional_edges t"
      with it show ?thesis by simp
    next
      assume "\<exists>a b. add_edge (graph t) a b = Inr (graph t') \<and> has_edge (graph t) a b = Inr False
          \<and> current_additional_edges t' = current_additional_edges t + 1
          \<and> (\<not> False \<longrightarrow> a < b \<and> b < num_vertices (graph t))"
      then obtain a b where ae: "add_edge (graph t) a b = Inr (graph t')"
        and ab: "a < b" and bn: "b < num_vertices (graph t)"
        by blast
      from it have "num_vertices (graph t) = n" by (simp add: only_forward_added_def)
      with bn have "b < n" by simp
      with it ae ab show ?thesis by (rule only_forward_added_step)
    qed
  qed
  then show ?thesis by simp
qed

lemma generate_only_forward:
  assumes d: "d \<le> n"
    and g0: "new_Graph heap n = Inr g0"
    and run: "generate heap rng n d add False = Some (Inr (Finished s))"
  shows "only_forward_added n g0 (graph s)"
proof -
  from run obtain g0' g1 where
    g0': "new_Graph heap n = Inr g0'" and g1: "chain_loop g0' 1 d = Inr g1" and
    lp: "sample_loop rng d add False
           \<lparr>graph = g1, current_additional_edges = 0, current_iterations = 0, draws = 0\<rparr>
         = Some (Inr (Finished s))"
    by (rule generate_Finished)
  from g0 g0' have eq: "g0' = g0" by simp
  from g1 have g1': "chain_loop g0 1 d = Inr g1" unfolding eq .
  have r0: "only_forward_added n g0 g0"
    using new_Graph_fields [OF g0] by (simp add: only_forward_added_def)
  have i1: "(1 :: int) \<le> 1" by simp
  have i2: "1 \<le> INT_MAX" by (simp add: INT_MAX_def)
  have r1: "only_forward_added n g0 g1"
    by (rule chain_loop_only_forward [OF g1' i1 i2 d r0])
  show ?thesis
    by (rule sample_loop_only_forward [OF lp]) (simp add: r1)
qed


lemma cell_index_no_wrap:
  fixes a b n :: "32 word"
  assumes nw: "unat n * unat n < 2 ^ 32" and a: "a < n" and b: "b < n"
  shows "unat (a + b * n) = unat a + unat b * unat n"
proof -
  from a have an: "unat a < unat n" by (simp only: word_less_nat_alt)
  from b have bn: "unat b < unat n" by (simp only: word_less_nat_alt)
  from bn have "Suc (unat b) \<le> unat n" by simp
  then have "Suc (unat b) * unat n \<le> unat n * unat n" by (rule mult_le_mono1)
  with an have bound: "unat a + unat b * unat n < unat n * unat n" by simp
  with nw have lt: "unat a + unat b * unat n < 2 ^ 32" by simp
  then have "unat b * unat n < 2 ^ LENGTH(32)" by simp
  then have m: "unat (b * n) = unat b * unat n" by (simp only: unat_mult_lem)
  from lt have "unat a + unat (b * n) < 2 ^ LENGTH(32)" by (simp add: m)
  then have "unat (a + b * n) = unat a + unat (b * n)" by (simp only: unat_add_lem)
  with m show ?thesis by simp
qed

lemma cell_decode:
  fixes a b a' b' n :: nat
  assumes "a < n" "a' < n" "a + b * n = a' + b' * n"
  shows "a = a' \<and> b = b'"
proof -
  from assms(1) have "(a + b * n) mod n = a" and "(a + b * n) div n = b" by simp_all
  moreover from assms(2) have "(a' + b' * n) mod n = a'" and "(a' + b' * n) div n = b'"
    by simp_all
  ultimately show ?thesis using assms(3) by metis
qed

lemma forward_edges_only:
  assumes nw: "unat n * unat n < 2 ^ 32"
    and inv: "only_forward_added n g0 g"
    and clear: "matrix g0 = replicate (length (matrix g0)) False"
    and a: "a < n" and b: "b < n"
    and e: "has_edge g a b = Inr True"
  shows "a < b"
proof -
  from inv have nv: "num_vertices g = n" and len: "length (matrix g) = length (matrix g0)"
    and cells: "\<And>idx. idx < length (matrix g) \<Longrightarrow> matrix g ! idx \<Longrightarrow>
                  matrix g0 ! idx \<or> forward_cell n idx"
    by (simp_all add: only_forward_added_def)
  let ?c = "unat (a + b * n)"
  from e nv have c: "?c < length (matrix g)" and set: "matrix g ! ?c"
    by (auto simp: has_edge_def load_def split: if_splits)
  from c len have "?c < length (matrix g0)" by simp
  with clear have "\<not> matrix g0 ! ?c" by (metis nth_replicate)
  with cells [OF c set] have "forward_cell n ?c" by simp
  then obtain f t where ft: "f < t" and tn: "t < n" and eq: "?c = unat (f + t * n)"
    by (auto simp: forward_cell_def)
  from ft tn have fn: "f < n" by simp
  have "unat a + unat b * unat n = unat f + unat t * unat n"
    using eq cell_index_no_wrap [OF nw a b] cell_index_no_wrap [OF nw fn tn] by simp
  moreover from a have "unat a < unat n" by (simp only: word_less_nat_alt)
  moreover from fn have "unat f < unat n" by (simp only: word_less_nat_alt)
  ultimately have "unat a = unat f \<and> unat b = unat t"
    by (rule cell_decode [where n = "unat n", rotated 2])
  with ft show ?thesis by (simp add: word_less_nat_alt)
qed

text \<open>
  What generation without cycles (\<open>has_cicles\<close> false) inserts, with
  \<open>min_graph_depth \<le> num_vertices\<close> as \<open>main\<close> validates: every cell of the matrix that a
  successful generation switched on (set at the end, clear after construction) is the
  cell of a pair \<open>(from, to)\<close> with \<open>from < to < num_vertices\<close>, chain edges and sampled
  edges alike; and every step of the sampling loop that changes the graph adds an edge
  \<open>(from, to)\<close> with \<open>from < to < num_vertices\<close> that was not there. If the buffer really
  has \<open>num_vertices\<^sup>2\<close> cells (the product does not wrap) and the constructed matrix
  was all false, every edge of the final graph goes from a smaller to a larger index
  and the graph has no directed cycle. The constructor does not establish that
  condition.
\<close>

lemma inserted_edges_forward:
  assumes "min_graph_depth \<le> n"
    and "new_Graph heap n = Inr g0"
    and "generate heap rng n min_graph_depth additional_edges False = Some (Inr (Finished s))"
  shows "(\<forall>idx<length (matrix (graph s)). matrix (graph s) ! idx \<and> \<not> matrix g0 ! idx \<longrightarrow>
            (\<exists>from to. from < to \<and> to < n \<and> idx = unat (from + to * n)))
       \<and> (\<forall>t t'. sample_step rng min_graph_depth False t = Continue t' \<longrightarrow>
            graph t' = graph t
            \<or> (\<exists>from to. from < to \<and> to < num_vertices (graph t)
                  \<and> has_edge (graph t) from to = Inr False
                  \<and> add_edge (graph t) from to = Inr (graph t')))
       \<and> (unat n * unat n < 2 ^ 32 \<and> matrix g0 = replicate (length (matrix g0)) False \<longrightarrow>
            (\<forall>from to. from < n \<and> to < n \<and> has_edge (graph s) from to = Inr True
               \<longrightarrow> from < to)
            \<and> \<not> has_cycle_within (graph s) n)"
proof (intro conjI allI impI)
  note inv = generate_only_forward [OF assms]
  fix idx
  assume "idx < length (matrix (graph s))"
    and "matrix (graph s) ! idx \<and> \<not> matrix g0 ! idx"
  with inv have "forward_cell n idx" by (auto simp: only_forward_added_def)
  then show "\<exists>from to. from < to \<and> to < n \<and> idx = unat (from + to * n)"
    by (simp only: forward_cell_def)
next
  fix t t'
  assume "sample_step rng min_graph_depth False t = Continue t'"
  from sample_step_Continue [OF this]
  show "graph t' = graph t
        \<or> (\<exists>from to. from < to \<and> to < num_vertices (graph t)
              \<and> has_edge (graph t) from to = Inr False
              \<and> add_edge (graph t) from to = Inr (graph t'))"
    by blast
next
  fix "from" to
  assume h: "unat n * unat n < 2 ^ 32 \<and> matrix g0 = replicate (length (matrix g0)) False"
    and e: "from < n \<and> to < n \<and> has_edge (graph s) from to = Inr True"
  note inv = generate_only_forward [OF assms]
  from h have nw: "unat n * unat n < 2 ^ 32"
    and clear: "matrix g0 = replicate (length (matrix g0)) False" by simp_all
  from e have "from < n" and "to < n" and "has_edge (graph s) from to = Inr True"
    by simp_all
  then show "from < to" by (rule forward_edges_only [OF nw inv clear])
next
  assume h: "unat n * unat n < 2 ^ 32 \<and> matrix g0 = replicate (length (matrix g0)) False"
  note inv = generate_only_forward [OF assms]
  have "a < b" if "(a, b) \<in> edges_within (graph s) n" for a b
  proof -
    from h have nw: "unat n * unat n < 2 ^ 32"
      and clear: "matrix g0 = replicate (length (matrix g0)) False" by simp_all
    from that have "a < n" and "b < n" and "has_edge (graph s) a b = Inr True"
      by (simp_all add: edges_within_def)
    then show ?thesis by (rule forward_edges_only [OF nw inv clear])
  qed
  then have "(v, v) \<notin> (edges_within (graph s) n)\<^sup>+" for v
    by (rule no_cycle_if_increasing)
  then show "\<not> has_cycle_within (graph s) n" by (simp add: has_cycle_within_def)
qed

text \<open>
  C5 fails on the code, through the constructor's loop (see C3). The edges that
  generation inserts all go forward, but the graph is not a DAG when a cell the
  constructor left uninitialised is set. With 3 vertices, depth 3, no additional edge,
  no cycles and a heap whose byte at offset 5 is set, generation succeeds and the
  graph has the chain edge \<open>(1, 2)\<close> and, from the cell never cleared, the edge
  \<open>(2, 1)\<close>: a directed cycle. The file written lists both, for every random seed.
\<close>

theorem acyclic_run_on_dirty_heap_has_cycle:
  "generate (heap_of [False, False, False, False, False, True]) rng 3 3 0 False
     = Some (Inr (Finished
         \<lparr>graph = \<lparr>num_vertices = 3, num_edges = 2,
                   matrix = [False, False, False, True, False, True, False, True, False]\<rparr>,
          current_additional_edges = 0, current_iterations = 0, draws = 0\<rparr>))
   \<and> has_edge \<lparr>num_vertices = 3, num_edges = 2,
                matrix = [False, False, False, True, False, True, False, True, False]\<rparr> 1 2
       = Inr True
   \<and> has_edge \<lparr>num_vertices = 3, num_edges = 2,
                matrix = [False, False, False, True, False, True, False, True, False]\<rparr> 2 1
       = Inr True
   \<and> has_cycle_within
         \<lparr>num_vertices = 3, num_edges = 2,
          matrix = [False, False, False, True, False, True, False, True, False]\<rparr> 3
   \<and> main_prog (heap_of [False, False, False, False, False, True]) rng rnd 7 3 3 0
         ''false'' ''false''
       = Some (Inr \<lparr>exit_code = 0, console = [],
                    out_file = Some ''3\<newline>2\<newline>0 1\<newline>1 2\<newline>2 1\<newline>''\<rparr>)"
proof (intro conjI)
  let ?g = "\<lparr>num_vertices = 3, num_edges = 2,
          matrix = [False, False, False, True, False, True, False, True, False]\<rparr>"
  show "generate (heap_of [False, False, False, False, False, True]) rng 3 3 0 False
     = Some (Inr (Finished
         \<lparr>graph = ?g, current_additional_edges = 0, current_iterations = 0, draws = 0\<rparr>))"
    by code_simp
  show e12: "has_edge ?g 1 2 = Inr True" by code_simp
  show e21: "has_edge ?g 2 1 = Inr True" by code_simp
  from e12 have "(1, 2) \<in> edges_within ?g 3" by (simp add: edges_within_def)
  moreover from e21 have "(2, 1) \<in> edges_within ?g 3" by (simp add: edges_within_def)
  ultimately have "(1, 1) \<in> (edges_within ?g 3)\<^sup>+" by (rule trancl.intros(2) [OF r_into_trancl])
  then show "has_cycle_within ?g 3" unfolding has_cycle_within_def by (rule exI)
  show "main_prog (heap_of [False, False, False, False, False, True]) rng rnd 7 3 3 0
         ''false'' ''false''
       = Some (Inr \<lparr>exit_code = 0, console = [],
                    out_file = Some ''3\<newline>2\<newline>0 1\<newline>1 2\<newline>2 1\<newline>''\<rparr>)"
    by code_simp
qed


end
